theory Spec2Isabelle
  imports Complex_Main "HOL-Library.Sublist"
begin

section \<open>The batch fetcher of \<^verbatim>\<open>scripts/scrap_all_infos_works_of_art.py\<close>\<close>

text \<open>
  The script reads a list of resource paths, fetches each one over HTTP with a bounded
  number of retries, groups the paths into batches of \<^verbatim>\<open>BATCH_SIZE\<close>, and writes one CSV
  file per batch. The model below follows the script function by function.

  Conventions of the model.
  \<^item> Python integers are \<open>int\<close>. \<^verbatim>\<open>range(a, b)\<close> is the list \<open>[a..b - 1]\<close>.
  \<^item> Python's \<^verbatim>\<open>None\<close> is \<open>None\<close>; a value that may be \<^verbatim>\<open>None\<close> is an \<open>option\<close>.
  \<^item> What the network does is not decided by the program: it is a parameter of the
    model, an outcome for every request.
  \<^item> Effects are recorded as a list of events in the order in which the function performs
    them: permits of the semaphore, requests, sleeps, and the warnings and errors that are
    logged. Calls of \<^verbatim>\<open>logger.info\<close> report progress only and calls of
    \<^verbatim>\<open>logger.debug\<close> print nothing at the configured level \<^verbatim>\<open>logging.INFO\<close>; neither is
    recorded.
  \<^item> The output directory is a map from file names to file contents.
\<close>

subsection \<open>Configuration\<close>

definition BATCH_SIZE :: int where
  "BATCH_SIZE = 5000"

definition MAX_CONCURRENT_REQUESTS :: nat where
  "MAX_CONCURRENT_REQUESTS = 50"

subsection \<open>Python helpers\<close>

definition py_range :: "int \<Rightarrow> int \<Rightarrow> int list" where
  "py_range a b = [a..b - 1]"

text \<open>
  \<^verbatim>\<open>xs[start:end]\<close>: a negative index counts from the end, and both indices are clamped
  to the length of the list.
\<close>

definition py_index :: "int \<Rightarrow> int \<Rightarrow> nat" where
  "py_index n i = nat (if i < 0 then max (i + n) 0 else min i n)"

definition py_slice :: "'a list \<Rightarrow> int \<Rightarrow> int \<Rightarrow> 'a list" where
  "py_slice xs start end =
     (let n = int (length xs)
      in drop (py_index n start) (take (py_index n end) xs))"

subsection \<open>The outcome of one request\<close>

text \<open>
  The classes of exception that the handlers of \<^verbatim>\<open>fetch\<close> tell apart, in the order of
  its \<^verbatim>\<open>except\<close> clauses: \<^verbatim>\<open>asyncio.TimeoutError\<close>, \<^verbatim>\<open>aiohttp.ClientError\<close>, and every other
  subclass of \<^verbatim>\<open>Exception\<close>.
\<close>

datatype py_exception = TimeoutError | ClientError | OtherException

text \<open>
  \<^verbatim>\<open>await response.json()\<close> returns the parsed body, which is \<^verbatim>\<open>None\<close> for the body
  \<^verbatim>\<open>null\<close>, or raises.
\<close>

datatype 'd json_call = JsonReturns "'d option" | JsonRaises py_exception

text \<open>
  \<^verbatim>\<open>session.get(url, timeout=timeout)\<close> raises, or yields a response with a status code,
  possibly a \<^verbatim>\<open>Content-Type\<close> header, and a body.
\<close>

datatype 'd get_outcome =
    GetRaises py_exception
  | GetResponse int "string option" "'d json_call"

datatype log_msg =
    Non_200_response string int
  | Non_JSON_response string
  | Timeout_for_URL string
  | Request_failed string
  | Unexpected_error string
  | Failed_after_retries int string
  | No_data_to_save int
  | All_requests_failed int

datatype event =
    Acquire
  | Release
  | Request string
  | Request_done
  | Sleep int
  | Warning log_msg
  | Error log_msg

subsection \<open>\<^verbatim>\<open>fetch\<close>\<close>

text \<open>
  The body of the \<^verbatim>\<open>try\<close> block: the events it performs and the value it returns, or the
  exception it raises. The request is done when the block \<^verbatim>\<open>async with session.get(...)\<close>
  is left, after the warning is logged.
\<close>

fun fetch_try :: "string \<Rightarrow> 'd get_outcome \<Rightarrow> py_exception + (event list \<times> 'd option)" where
  "fetch_try url (GetRaises e) = Inl e"
| "fetch_try url (GetResponse status content_type body) =
     (if status \<noteq> 200 then
        Inr ([Warning (Non_200_response url status), Request_done], None)
      else if \<not> sublist ''application/json''
                 (case content_type of None \<Rightarrow> '''' | Some h \<Rightarrow> h) then
        Inr ([Warning (Non_JSON_response url), Request_done], None)
      else
        (case body of
           JsonRaises e \<Rightarrow> Inl e
         | JsonReturns r \<Rightarrow> Inr ([Request_done], r)))"

text \<open>
  \<^verbatim>\<open>fetch\<close> holds the semaphore around the \<^verbatim>\<open>try\<close> statement. Each handler logs an error
  and returns \<^verbatim>\<open>None\<close>; the last one catches every \<^verbatim>\<open>Exception\<close>.
\<close>

definition fetch :: "string \<Rightarrow> 'd get_outcome \<Rightarrow> event list \<times> 'd option" where
  "fetch url outcome =
     (let (evs, result) =
        (case fetch_try url outcome of
           Inr r \<Rightarrow> r
         | Inl TimeoutError \<Rightarrow> ([Request_done, Error (Timeout_for_URL url)], None)
         | Inl ClientError \<Rightarrow> ([Request_done, Error (Request_failed url)], None)
         | Inl OtherException \<Rightarrow> ([Request_done, Error (Unexpected_error url)], None))
      in (Acquire # Request url # evs @ [Release], result))"

subsection \<open>\<^verbatim>\<open>fetch_with_retry\<close>\<close>

text \<open>
  The loop \<^verbatim>\<open>for attempt in range(retries)\<close>, over the attempts that are left. The
  outcome of the request made by attempt \<open>k\<close> is \<open>net k\<close>.
\<close>

fun retry_loop ::
  "(int \<Rightarrow> 'd get_outcome) \<Rightarrow> string \<Rightarrow> int \<Rightarrow> int list \<Rightarrow> event list \<times> 'd option" where
  "retry_loop net url retries [] = ([Error (Failed_after_retries retries url)], None)"
| "retry_loop net url retries (attempt # rest) =
     (let (evs, result) = fetch url (net attempt)
      in case result of
           Some d \<Rightarrow> (evs, Some d)
         | None \<Rightarrow>
             (let wait = (if attempt < retries - 1 then [Sleep (2 ^ nat attempt)] else []);
                  (evs', result') = retry_loop net url retries rest
              in (evs @ wait @ evs', result')))"

definition fetch_with_retry ::
  "(int \<Rightarrow> 'd get_outcome) \<Rightarrow> string \<Rightarrow> int \<Rightarrow> event list \<times> 'd option" where
  "fetch_with_retry net url retries = retry_loop net url retries (py_range 0 retries)"

subsection \<open>\<^verbatim>\<open>fetch_batch\<close>\<close>

text \<open>
  \<^verbatim>\<open>asyncio.gather\<close> keeps one future per awaitable, in the order in which the
  awaitables were passed. A task that finishes stores its value in its own future, and when
  the last one has finished the values are read from the futures in that order. The tasks
  finish in some order that the program does not control: \<open>finish j\<close> is the time at which
  task \<open>j\<close> finishes, and the tasks finish by increasing time.
\<close>

definition completion_order :: "(nat \<Rightarrow> nat) \<Rightarrow> nat \<Rightarrow> nat list" where
  "completion_order finish n = sort_key finish [0..<n]"

definition gather :: "(nat \<Rightarrow> nat) \<Rightarrow> 'a list \<Rightarrow> 'a list" where
  "gather finish values =
     (let n = length values;
          futures = foldl (\<lambda>fs j. fs[j := Some (values ! j)]) (replicate n None)
                      (completion_order finish n)
      in map the futures)"

definition full_url :: "string \<Rightarrow> string" where
  "full_url url = ''https://collections.louvre.fr'' @ url @ ''.json''"

text \<open>
  One task per URL of the batch, each with the default of three attempts. The outcome of
  the request made by attempt \<open>k\<close> of the task at position \<open>j\<close> is \<open>net j k\<close>. The tasks
  share one semaphore, created by this call. The function returns the results; the model
  also returns what every task did, one list of events per task.
\<close>

definition batch_tasks ::
  "(nat \<Rightarrow> int \<Rightarrow> 'd get_outcome) \<Rightarrow> string list \<Rightarrow> (event list \<times> 'd option) list" where
  "batch_tasks net urls =
     map (\<lambda>(j, url). fetch_with_retry (net j) (full_url url) 3) (enumerate 0 urls)"

definition fetch_batch ::
  "(nat \<Rightarrow> int \<Rightarrow> 'd get_outcome) \<Rightarrow> (nat \<Rightarrow> nat) \<Rightarrow> string list \<Rightarrow> int \<Rightarrow>
     event list list \<times> 'd option list" where
  "fetch_batch net finish urls batch_number =
     (let tasks = batch_tasks net urls;
          results = gather finish (map snd tasks)
      in (map fst tasks, results))"

subsection \<open>\<^verbatim>\<open>save_batch\<close>\<close>

text \<open>
  \<^verbatim>\<open>pandas.json_normalize\<close> turns a list of documents into a frame with one row per
  document, in the order of the list. A frame is modelled by the list of the documents of
  its rows, and a CSV file by the frame written to it.
\<close>

type_synonym 'd frame = "'d list"

type_synonym 'd files = "string \<rightharpoonup> 'd frame"

definition json_normalize :: "'d list \<Rightarrow> 'd frame" where
  "json_normalize docs = docs"

text \<open>The decimal digits of a natural number, and \<^verbatim>\<open>f"{n:04d}"\<close>.\<close>

definition digit_char :: "nat \<Rightarrow> char" where
  "digit_char d = ''0123456789'' ! d"

function digits :: "nat \<Rightarrow> string" where
  "digits n = (if n < 10 then [digit_char n] else digits (n div 10) @ [digit_char (n mod 10)])"
  by pat_completeness auto
termination
  by (relation "measure (\<lambda>n. n)") auto

definition zero_pad :: "nat \<Rightarrow> string \<Rightarrow> string" where
  "zero_pad width s = replicate (width - length s) (CHR ''0'') @ s"

definition format_04d :: "int \<Rightarrow> string" where
  "format_04d n =
     (if n < 0 then CHR ''-'' # zero_pad 3 (digits (nat (- n)))
      else zero_pad 4 (digits (nat n)))"

text \<open>The name of the file of a batch, in the output directory.\<close>

definition batch_file :: "int \<Rightarrow> string" where
  "batch_file batch_number = ''batch_'' @ format_04d batch_number @ ''.csv''"

text \<open>
  Reading the number back from its digits. The script never does this; the functions serve
  to show that different batch numbers give different file names.
\<close>

definition digit_val :: "char \<Rightarrow> nat" where
  "digit_val c = of_char c - 48"

definition parse_nat :: "string \<Rightarrow> nat" where
  "parse_nat s = foldl (\<lambda>acc c. 10 * acc + digit_val c) 0 s"

definition parse_int :: "string \<Rightarrow> int" where
  "parse_int s = (case s of [] \<Rightarrow> 0 | c # r \<Rightarrow>
      if c = CHR ''-'' then - int (parse_nat r) else int (parse_nat s))"

definition save_batch ::
  "'d option list \<Rightarrow> int \<Rightarrow> 'd files \<Rightarrow> event list \<times> 'd frame option \<times> 'd files" where
  "save_batch data batch_number files =
     (if data = [] then ([Warning (No_data_to_save batch_number)], None, files)
      else
        (let filtered_data = map the (filter (\<lambda>d. d \<noteq> None) data)
         in if filtered_data = [] then
              ([Warning (All_requests_failed batch_number)], None, files)
            else
              (let df = json_normalize filtered_data
               in ([], Some df, files(batch_file batch_number \<mapsto> df)))))"

subsection \<open>\<^verbatim>\<open>process_all_batches\<close> and \<^verbatim>\<open>resume_from_batch\<close>\<close>

text \<open>
  What a run does, in order: a call of \<^verbatim>\<open>fetch_batch\<close> with its URLs, its batch number and
  the events of its tasks, or an event of the coordinator itself.
\<close>

datatype run_event =
    Fetch_batch "string list" int "event list list"
  | Main event

text \<open>
  The batch size is the parameter \<open>B\<close>; the script fixes it to \<^verbatim>\<open>BATCH_SIZE\<close>. In batch
  \<open>i\<close> (counted from 0), \<open>net i\<close> gives the outcomes of the requests and \<open>finish i\<close> the
  times at which the tasks finish. The loops run over the values of \<open>i\<close> that are left;
  \<open>num_batches\<close> is computed before the loop.
\<close>

fun process_loop ::
  "int \<Rightarrow> int \<Rightarrow> (int \<Rightarrow> nat \<Rightarrow> int \<Rightarrow> 'd get_outcome) \<Rightarrow> (int \<Rightarrow> nat \<Rightarrow> nat) \<Rightarrow> string list \<Rightarrow>
     int list \<Rightarrow> 'd files \<Rightarrow> run_event list \<times> 'd frame list \<times> 'd files" where
  "process_loop B num_batches net finish df_urls [] files = ([], [], files)"
| "process_loop B num_batches net finish df_urls (i # rest) files =
     (let total_urls = int (length df_urls);
          start_idx = i * B;
          end_idx = min ((i + 1) * B) total_urls;
          batch_number = i + 1;
          batch_urls = py_slice df_urls start_idx end_idx;
          (tasks, data) = fetch_batch (net i) (finish i) batch_urls batch_number;
          (logged, df_batch, files') = save_batch data batch_number files;
          pause = (if i < num_batches - 1 then [Main (Sleep 5)] else []);
          (evs, all_dataframes, files'') =
             process_loop B num_batches net finish df_urls rest files'
      in (Fetch_batch batch_urls batch_number tasks # map Main logged @ pause @ evs,
          (case df_batch of None \<Rightarrow> all_dataframes | Some df \<Rightarrow> df # all_dataframes),
          files''))"

definition process_all_batches ::
  "int \<Rightarrow> (int \<Rightarrow> nat \<Rightarrow> int \<Rightarrow> 'd get_outcome) \<Rightarrow> (int \<Rightarrow> nat \<Rightarrow> nat) \<Rightarrow> string list \<Rightarrow>
     'd files \<Rightarrow> run_event list \<times> 'd frame list \<times> 'd files" where
  "process_all_batches B net finish df_urls files =
     (let total_urls = int (length df_urls);
          num_batches = (total_urls + B - 1) div B
      in process_loop B num_batches net finish df_urls (py_range 0 num_batches) files)"

fun resume_loop ::
  "int \<Rightarrow> int \<Rightarrow> (int \<Rightarrow> nat \<Rightarrow> int \<Rightarrow> 'd get_outcome) \<Rightarrow> (int \<Rightarrow> nat \<Rightarrow> nat) \<Rightarrow> string list \<Rightarrow>
     int list \<Rightarrow> 'd files \<Rightarrow> run_event list \<times> 'd files" where
  "resume_loop B num_batches net finish df_urls [] files = ([], files)"
| "resume_loop B num_batches net finish df_urls (i # rest) files =
     (let total_urls = int (length df_urls);
          start_idx = i * B;
          end_idx = min ((i + 1) * B) total_urls;
          batch_number = i + 1
      in if files (batch_file batch_number) \<noteq> None then
           resume_loop B num_batches net finish df_urls rest files
         else
           (let batch_urls = py_slice df_urls start_idx end_idx;
                (tasks, data) = fetch_batch (net i) (finish i) batch_urls batch_number;
                (logged, df_batch, files') = save_batch data batch_number files;
                pause = (if i < num_batches - 1 then [Main (Sleep 5)] else []);
                (evs, files'') = resume_loop B num_batches net finish df_urls rest files'
            in (Fetch_batch batch_urls batch_number tasks # map Main logged @ pause @ evs,
                files'')))"

definition resume_from_batch ::
  "int \<Rightarrow> (int \<Rightarrow> nat \<Rightarrow> int \<Rightarrow> 'd get_outcome) \<Rightarrow> (int \<Rightarrow> nat \<Rightarrow> nat) \<Rightarrow> string list \<Rightarrow>
     int \<Rightarrow> 'd files \<Rightarrow> run_event list \<times> 'd files" where
  "resume_from_batch B net finish df_urls start_batch files =
     (let total_urls = int (length df_urls);
          num_batches = (total_urls + B - 1) div B
      in resume_loop B num_batches net finish df_urls
           (py_range (start_batch - 1) num_batches) files)"

subsection \<open>Reading a list of events\<close>

definition requests :: "event list \<Rightarrow> nat" where
  "requests evs = length (filter (\<lambda>e. case e of Request u \<Rightarrow> True | _ \<Rightarrow> False) evs)"

definition total_sleep :: "event list \<Rightarrow> int" where
  "total_sleep evs = sum_list (map (\<lambda>e. case e of Sleep n \<Rightarrow> n | _ \<Rightarrow> 0) evs)"

fun network_calls :: "run_event list \<Rightarrow> nat" where
  "network_calls [] = 0"
| "network_calls (Fetch_batch urls n tasks # evs) =
     sum_list (map requests tasks) + network_calls evs"
| "network_calls (Main e # evs) = network_calls evs"

text \<open>The calls of \<^verbatim>\<open>fetch_batch\<close> in a run: batch number and URLs, in order.\<close>

fun batch_calls :: "run_event list \<Rightarrow> (int \<times> string list) list" where
  "batch_calls [] = []"
| "batch_calls (Fetch_batch urls n tasks # evs) = (n, urls) # batch_calls evs"
| "batch_calls (Main e # evs) = batch_calls evs"

text \<open>
  The steps of a run: the batches that are fetched, by number, and the sleeps of the
  coordinator.
\<close>

datatype step = Fetched int | Slept int

fun steps :: "run_event list \<Rightarrow> step list" where
  "steps [] = []"
| "steps (Fetch_batch urls n tasks # evs) = Fetched n # steps evs"
| "steps (Main (Sleep s) # evs) = Slept s # steps evs"
| "steps (Main e # evs) = steps evs"

declare digits.simps [simp del]

section \<open>Properties\<close>

subsection \<open>Helper lemmas on events\<close>

lemma py_range_0_3: "py_range 0 3 = [0, 1, 2]"
  by (simp add: py_range_def upto.simps)

lemma py_range_empty: "b \<le> a \<Longrightarrow> py_range a b = []"
  by (simp add: py_range_def)

lemma fetch_shape:
  "\<exists>mid. fst (fetch url out) = Acquire # Request url # mid @ [Release] \<and> requests mid = 0 \<and> total_sleep mid = 0"
  by (cases out) (auto simp: fetch_def requests_def total_sleep_def split: sum.splits py_exception.splits json_call.splits)

lemma requests_append: "requests (xs @ ys) = requests xs + requests ys"
  by (simp add: requests_def)

lemma total_sleep_append: "total_sleep (xs @ ys) = total_sleep xs + total_sleep ys"
  by (simp add: total_sleep_def)

lemma requests_fetch: "requests (fst (fetch url out)) = 1"
  using fetch_shape[of url out] by (auto simp: requests_def)

lemma total_sleep_fetch: "total_sleep (fst (fetch url out)) = 0"
  using fetch_shape[of url out] by (auto simp: total_sleep_def)

lemma requests_simps: "requests [] = 0" "requests (Sleep n # xs) = requests xs"
  "requests (Error m # xs) = requests xs"
  by (simp_all add: requests_def)

lemma total_sleep_simps: "total_sleep [] = 0" "total_sleep (Sleep n # xs) = n + total_sleep xs"
  "total_sleep (Error m # xs) = total_sleep xs"
  by (simp_all add: total_sleep_def)

subsection \<open>The retry policy\<close>

lemma fetch_with_retry_3:
  "fetch_with_retry net url 3 =
     (if snd (fetch url (net 0)) \<noteq> None then fetch url (net 0)
      else if snd (fetch url (net 1)) \<noteq> None then
        (fst (fetch url (net 0)) @ [Sleep (2 ^ 0)] @ fst (fetch url (net 1)), snd (fetch url (net 1)))
      else if snd (fetch url (net 2)) \<noteq> None then
        (fst (fetch url (net 0)) @ [Sleep (2 ^ 0)] @ fst (fetch url (net 1)) @ [Sleep (2 ^ 1)]
           @ fst (fetch url (net 2)), snd (fetch url (net 2)))
      else
        (fst (fetch url (net 0)) @ [Sleep (2 ^ 0)] @ fst (fetch url (net 1)) @ [Sleep (2 ^ 1)]
           @ fst (fetch url (net 2)) @ [Error (Failed_after_retries 3 url)], None))"
  by (auto simp: fetch_with_retry_def py_range_0_3 split: prod.splits option.splits)


lemma fetch_no_failed_log: "Error (Failed_after_retries n u) \<notin> set (fst (fetch url out))"
  by (cases out) (auto simp: fetch_def split: sum.splits py_exception.splits json_call.splits)

text \<open>
  C2. With three attempts, \<^verbatim>\<open>fetch_with_retry\<close> calls \<^verbatim>\<open>fetch\<close> at most three times. It
  returns the result of the first attempt that succeeds and makes no attempt after it.
  It sleeps \<open>2 ^ k\<close> between attempt \<open>k\<close> and attempt \<open>k + 1\<close>, counting from 0, and does
  not sleep after the last attempt. When the first two attempts fail and the third
  succeeds, the result is the third one's, the sleeps add up to \<open>2 ^ 0 + 2 ^ 1\<close>, and no
  failure is logged for the URL. When all three fail, the result is that of the last
  attempt, \<^verbatim>\<open>None\<close>.
\<close>

theorem fetch_with_retry_three_attempts:
  "fetch_with_retry net url 3 =
     (if snd (fetch url (net 0)) \<noteq> None then fetch url (net 0)
      else if snd (fetch url (net 1)) \<noteq> None then
        (fst (fetch url (net 0)) @ [Sleep (2 ^ 0)] @ fst (fetch url (net 1)), snd (fetch url (net 1)))
      else if snd (fetch url (net 2)) \<noteq> None then
        (fst (fetch url (net 0)) @ [Sleep (2 ^ 0)] @ fst (fetch url (net 1)) @ [Sleep (2 ^ 1)]
           @ fst (fetch url (net 2)), snd (fetch url (net 2)))
      else
        (fst (fetch url (net 0)) @ [Sleep (2 ^ 0)] @ fst (fetch url (net 1)) @ [Sleep (2 ^ 1)]
           @ fst (fetch url (net 2)) @ [Error (Failed_after_retries 3 url)], snd (fetch url (net 2))))
   \<and> requests (fst (fetch_with_retry net url 3)) \<le> 3
   \<and> (snd (fetch url (net 0)) = None \<and> snd (fetch url (net 1)) = None \<and> snd (fetch url (net 2)) = Some d
        \<longrightarrow> snd (fetch_with_retry net url 3) = Some d
          \<and> total_sleep (fst (fetch_with_retry net url 3)) = 2 ^ 0 + 2 ^ 1
          \<and> requests (fst (fetch_with_retry net url 3)) = 3
          \<and> Error (Failed_after_retries 3 url) \<notin> set (fst (fetch_with_retry net url 3)))"
proof -
  note eq = fetch_with_retry_3 [of net url]
  have shape: "fetch_with_retry net url 3 =
     (if snd (fetch url (net 0)) \<noteq> None then fetch url (net 0)
      else if snd (fetch url (net 1)) \<noteq> None then
        (fst (fetch url (net 0)) @ [Sleep (2 ^ 0)] @ fst (fetch url (net 1)), snd (fetch url (net 1)))
      else if snd (fetch url (net 2)) \<noteq> None then
        (fst (fetch url (net 0)) @ [Sleep (2 ^ 0)] @ fst (fetch url (net 1)) @ [Sleep (2 ^ 1)]
           @ fst (fetch url (net 2)), snd (fetch url (net 2)))
      else
        (fst (fetch url (net 0)) @ [Sleep (2 ^ 0)] @ fst (fetch url (net 1)) @ [Sleep (2 ^ 1)]
           @ fst (fetch url (net 2)) @ [Error (Failed_after_retries 3 url)], snd (fetch url (net 2))))"
    by (simp add: eq)
  have count: "requests (fst (fetch_with_retry net url 3)) \<le> 3"
    by (simp add: eq requests_append requests_fetch requests_simps)
  have third: "snd (fetch_with_retry net url 3) = Some d
          \<and> total_sleep (fst (fetch_with_retry net url 3)) = 2 ^ 0 + 2 ^ 1
          \<and> requests (fst (fetch_with_retry net url 3)) = 3
          \<and> Error (Failed_after_retries 3 url) \<notin> set (fst (fetch_with_retry net url 3))"
    if "snd (fetch url (net 0)) = None" "snd (fetch url (net 1)) = None"
       "snd (fetch url (net 2)) = Some d"
    using that
    by (simp add: eq requests_append requests_fetch requests_simps total_sleep_append
        total_sleep_fetch total_sleep_simps fetch_no_failed_log)
  from shape count third show ?thesis by blast
qed

theorem fetch_with_retry_three_attempts_witness:
  "fetch_with_retry
     (\<lambda>k. if k = 2 then GetResponse 200 (Some ''application/json'') (JsonReturns (Some (7::nat)))
           else GetRaises TimeoutError) ''/ark'' 3
   = ([Acquire, Request ''/ark'', Request_done, Error (Timeout_for_URL ''/ark''), Release,
       Sleep 1,
       Acquire, Request ''/ark'', Request_done, Error (Timeout_for_URL ''/ark''), Release,
       Sleep 2,
       Acquire, Request ''/ark'', Request_done, Release], Some 7)
   \<and> total_sleep (fst (fetch_with_retry
     (\<lambda>k. if k = 2 then GetResponse 200 (Some ''application/json'') (JsonReturns (Some (7::nat)))
           else GetRaises TimeoutError) ''/ark'' 3)) = 3"
  using fetch_with_retry_three_attempts [where url = "''/ark''" and d = 7 and net =
     "\<lambda>k. if k = 2 then GetResponse 200 (Some ''application/json'') (JsonReturns (Some (7::nat)))
           else GetRaises TimeoutError"]
  by (simp add: fetch_def total_sleep_def)

text \<open>
  C10. With a budget of attempts that is zero or negative, \<^verbatim>\<open>fetch_with_retry\<close> makes no
  request and does not sleep: it logs the failure and returns \<^verbatim>\<open>None\<close>.
\<close>

theorem fetch_with_retry_zero_budget:
  "retries \<le> 0 \<Longrightarrow>
     fetch_with_retry net url retries = ([Error (Failed_after_retries retries url)], None)
     \<and> requests (fst (fetch_with_retry net url retries)) = 0
     \<and> total_sleep (fst (fetch_with_retry net url retries)) = 0"
  by (simp add: fetch_with_retry_def py_range_empty requests_simps total_sleep_simps)

theorem fetch_with_retry_zero_budget_witness:
  "(0::int) \<le> 0
   \<and> fetch_with_retry (\<lambda>k. GetResponse 200 (Some ''application/json'') (JsonReturns (Some (7::nat))))
        ''/ark'' 0 = ([Error (Failed_after_retries 0 ''/ark'')], None)
   \<and> fetch_with_retry (\<lambda>k. GetResponse 200 (Some ''application/json'') (JsonReturns (Some (7::nat))))
        ''/ark'' (- 2) = ([Error (Failed_after_retries (- 2) ''/ark'')], None)"
  using fetch_with_retry_zero_budget [where retries = 0 and url = "''/ark''" and net = "\<lambda>k. GetResponse 200 (Some ''application/json'') (JsonReturns (Some (7::nat)))"]
    fetch_with_retry_zero_budget [where retries = "- 2" and url = "''/ark''" and net = "\<lambda>k. GetResponse 200 (Some ''application/json'') (JsonReturns (Some (7::nat)))"]
  by simp


subsection \<open>The outcomes of \<^verbatim>\<open>fetch\<close>\<close>

lemma fetch_cases:
  "fetch url (GetRaises TimeoutError) =
     ([Acquire, Request url, Request_done, Error (Timeout_for_URL url), Release], None)"
  "fetch url (GetRaises ClientError) =
     ([Acquire, Request url, Request_done, Error (Request_failed url), Release], None)"
  "fetch url (GetRaises OtherException) =
     ([Acquire, Request url, Request_done, Error (Unexpected_error url), Release], None)"
  "status \<noteq> 200 \<Longrightarrow> fetch url (GetResponse status h body) =
     ([Acquire, Request url, Warning (Non_200_response url status), Request_done, Release], None)"
  "\<not> sublist ''application/json'' (case h of None \<Rightarrow> [] | Some t \<Rightarrow> t) \<Longrightarrow>
     fetch url (GetResponse 200 h body) =
     ([Acquire, Request url, Warning (Non_JSON_response url), Request_done, Release], None)"
  "sublist ''application/json'' (case h of None \<Rightarrow> [] | Some t \<Rightarrow> t) \<Longrightarrow>
     fetch url (GetResponse 200 h (JsonReturns r)) =
     ([Acquire, Request url, Request_done, Release], r)"
  "sublist ''application/json'' (case h of None \<Rightarrow> [] | Some t \<Rightarrow> t) \<Longrightarrow>
     fetch url (GetResponse 200 h (JsonRaises e)) = fetch url (GetRaises e)"
  by (simp_all add: fetch_def)

text \<open>
  C3, as the code has it. \<^verbatim>\<open>fetch\<close> catches every \<^verbatim>\<open>Exception\<close> and returns \<^verbatim>\<open>None\<close> on
  every failure; the kind of failure shows in the message that is logged. A response whose
  status is not 200 gives the warning for the status, and only such a response does. A
  response with status 200 whose \<^verbatim>\<open>Content-Type\<close> does not contain \<^verbatim>\<open>application/json\<close>
  gives the warning for the content type. A timeout, a client error and any other exception,
  raised by the request or by the parsing of the body, give each their own error. Otherwise
  the result is the parsed body: \<^verbatim>\<open>fetch\<close> returns a document exactly when the status
  is 200, the content type contains \<^verbatim>\<open>application/json\<close> and the body parses to that
  document.
\<close>

theorem fetch_classification:
  "fetch url (GetRaises TimeoutError) =
     ([Acquire, Request url, Request_done, Error (Timeout_for_URL url), Release], None)
   \<and> fetch url (GetRaises ClientError) =
     ([Acquire, Request url, Request_done, Error (Request_failed url), Release], None)
   \<and> fetch url (GetRaises OtherException) =
     ([Acquire, Request url, Request_done, Error (Unexpected_error url), Release], None)
   \<and> (status \<noteq> 200 \<longrightarrow> fetch url (GetResponse status h body) =
     ([Acquire, Request url, Warning (Non_200_response url status), Request_done, Release], None))
   \<and> (\<not> sublist ''application/json'' (case h of None \<Rightarrow> [] | Some t \<Rightarrow> t) \<longrightarrow>
     fetch url (GetResponse 200 h body) =
     ([Acquire, Request url, Warning (Non_JSON_response url), Request_done, Release], None))
   \<and> (sublist ''application/json'' (case h of None \<Rightarrow> [] | Some t \<Rightarrow> t) \<longrightarrow>
     fetch url (GetResponse 200 h (JsonReturns r)) =
       ([Acquire, Request url, Request_done, Release], r)
     \<and> fetch url (GetResponse 200 h (JsonRaises e)) = fetch url (GetRaises e))
   \<and> ((\<exists>s. Warning (Non_200_response url s) \<in> set (fst (fetch url outcome)))
        \<longleftrightarrow> (\<exists>s t b. outcome = GetResponse s t b \<and> s \<noteq> 200))
   \<and> (snd (fetch url outcome) = Some d
        \<longleftrightarrow> (\<exists>t. outcome = GetResponse 200 (Some t) (JsonReturns (Some d))
                 \<and> sublist ''application/json'' t))"
proof -
  have http: "(\<exists>s. Warning (Non_200_response url s) \<in> set (fst (fetch url outcome)))
        \<longleftrightarrow> (\<exists>s t b. outcome = GetResponse s t b \<and> s \<noteq> 200)"
    by (cases outcome)
      (auto simp: fetch_def split: sum.splits py_exception.splits json_call.splits if_splits)
  have ok: "snd (fetch url outcome) = Some d
        \<longleftrightarrow> (\<exists>t. outcome = GetResponse 200 (Some t) (JsonReturns (Some d))
                 \<and> sublist ''application/json'' t)"
    by (cases outcome)
      (auto simp: fetch_def split: sum.splits py_exception.splits json_call.splits if_splits
         option.splits)
  show ?thesis
    using http ok by (simp add: fetch_cases)
qed

text \<open>
  C3, as stated, promises a success for every status from 200 to 299. The status 201 is
  in that range, the content type is JSON and the body parses, but \<^verbatim>\<open>fetch\<close> logs the
  warning for the status and returns \<^verbatim>\<open>None\<close>.
\<close>

theorem fetch_status_201_counterexample:
  "(200::int) \<le> 201 \<and> (201::int) < 300
   \<and> sublist ''application/json'' ''application/json''
   \<and> fetch ''/ark'' (GetResponse 201 (Some ''application/json'') (JsonReturns (Some (7::nat))))
       = ([Acquire, Request ''/ark'', Warning (Non_200_response ''/ark'' 201), Request_done,
           Release], None)"
  by (simp add: fetch_def)

theorem fetch_classification_witness:
  "(204::int) \<noteq> 200
   \<and> fetch ''/ark'' (GetResponse 204 (Some ''application/json'') (JsonReturns (Some (7::nat))))
       = ([Acquire, Request ''/ark'', Warning (Non_200_response ''/ark'' 204), Request_done,
           Release], None)
   \<and> sublist ''application/json'' ''application/json''
   \<and> fetch ''/ark'' (GetResponse 200 (Some ''application/json'') (JsonReturns (Some (7::nat))))
       = ([Acquire, Request ''/ark'', Request_done, Release], Some 7)
   \<and> \<not> sublist ''application/json'' ''text/html''
   \<and> fetch ''/ark'' (GetResponse 200 (Some ''text/html'') (JsonReturns (Some (7::nat))))
       = ([Acquire, Request ''/ark'', Warning (Non_JSON_response ''/ark''), Request_done,
           Release], None)"
proof -
  have yes: "sublist ''application/json'' ''application/json''"
    by simp
  have no: "\<not> sublist ''application/json'' ''text/html''"
    by code_simp
  show ?thesis
    using yes no
      fetch_classification [where url = "''/ark''" and status = 204
        and h = "Some ''application/json''" and body = "JsonReturns (Some (7::nat))"
        and r = "Some (7::nat)" and e = TimeoutError and d = "7::nat"
        and outcome = "GetRaises TimeoutError"]
      fetch_classification [where url = "''/ark''" and status = 204
        and h = "Some ''text/html''" and body = "JsonReturns (Some (7::nat))"
        and r = "Some (7::nat)" and e = TimeoutError and d = "7::nat"
        and outcome = "GetRaises TimeoutError"]
    by (simp add: fetch_def)
qed

subsection \<open>The results of a batch\<close>

lemma futures_fold:
  "length (foldl (\<lambda>fs j. fs[j := Some (vs ! j)]) fs0 order) = length fs0
   \<and> (\<forall>i < length fs0. foldl (\<lambda>fs j. fs[j := Some (vs ! j)]) fs0 order ! i =
        (if i \<in> set order then Some (vs ! i) else fs0 ! i))"
proof (induction order arbitrary: fs0)
  case Nil
  show ?case by simp
next
  case (Cons j order)
  show ?case
    using Cons.IH [of "fs0[j := Some (vs ! j)]"]
    by (auto simp: nth_list_update)
qed

lemma gather_in_order: "gather finish vs = vs"
proof (rule nth_equalityI)
  show "length (gather finish vs) = length vs"
    using futures_fold [of vs "replicate (length vs) None" "completion_order finish (length vs)"]
    by (simp add: gather_def Let_def)
next
  fix i assume "i < length (gather finish vs)"
  then have i: "i < length vs"
    using futures_fold [of vs "replicate (length vs) None" "completion_order finish (length vs)"]
    by (simp add: gather_def Let_def)
  then have "i \<in> set (completion_order finish (length vs))"
    by (simp add: completion_order_def)
  with i show "gather finish vs ! i = vs ! i"
    using futures_fold [of vs "replicate (length vs) None" "completion_order finish (length vs)"]
    by (simp add: gather_def Let_def)
qed

lemma batch_tasks_length: "length (batch_tasks net urls) = length urls"
  by (simp add: batch_tasks_def)

lemma batch_tasks_nth:
  "j < length urls \<Longrightarrow>
     batch_tasks net urls ! j = fetch_with_retry (net j) (full_url (urls ! j)) 3"
  by (simp add: batch_tasks_def nth_enumerate_eq)

lemma fetch_batch_eq:
  "fetch_batch net finish urls n = (map fst (batch_tasks net urls), map snd (batch_tasks net urls))"
  by (simp add: fetch_batch_def gather_in_order Let_def)

subsection \<open>Saving a batch\<close>

lemma save_batch_cases:
  "save_batch data n files =
     (if filter (\<lambda>d. d \<noteq> None) data = [] then
        ([Warning (if data = [] then No_data_to_save n else All_requests_failed n)], None, files)
      else ([], Some (map the (filter (\<lambda>d. d \<noteq> None) data)),
            files(batch_file n \<mapsto> map the (filter (\<lambda>d. d \<noteq> None) data))))"
  by (auto simp: save_batch_def json_normalize_def Let_def)

lemma successes_rows:
  "map Some (map the (filter (\<lambda>d. d \<noteq> None) data)) = filter (\<lambda>d. d \<noteq> None) data"
  by (induction data) auto

text \<open>
  C6. \<^verbatim>\<open>save_batch\<close> drops every failed entry: the rows of the frame are the documents
  of the successful entries, in order, and a failure gives no row. When no entry is a
  success it returns \<^verbatim>\<open>None\<close> and leaves the files as they are, so it creates no file for
  the batch number.
\<close>

theorem save_batch_empty_batch:
  "((\<forall>d \<in> set data. d = None) \<longrightarrow>
       fst (snd (save_batch data n files)) = None \<and> snd (snd (save_batch data n files)) = files)
   \<and> (\<not> (\<forall>d \<in> set data. d = None) \<longrightarrow>
       (\<exists>rows. save_batch data n files = ([], Some rows, files(batch_file n \<mapsto> rows))
          \<and> rows \<noteq> []
          \<and> map Some rows = filter (\<lambda>d. d \<noteq> None) data))"
proof -
  have none: "filter (\<lambda>d. d \<noteq> None) data = [] \<longleftrightarrow> (\<forall>d \<in> set data. d = None)"
    by (auto simp: filter_empty_conv)
  show ?thesis
    using none successes_rows [of data] by (auto simp: save_batch_cases)
qed

theorem save_batch_empty_batch_witness:
  "save_batch [None, None :: nat option] 3 Map.empty = ([Warning (All_requests_failed 3)], None, Map.empty)
   \<and> save_batch [None, Some (7::nat), None, Some 9] 3 Map.empty
       = ([], Some [7, 9], [batch_file 3 \<mapsto> [7, 9]])"
  using save_batch_empty_batch [where data = "[None, None :: nat option]" and n = 3 and files = Map.empty]
    save_batch_empty_batch [where data = "[None, Some (7::nat), None, Some 9]" and n = 3 and files = Map.empty]
  by (simp add: save_batch_def json_normalize_def Let_def)


subsection \<open>File names\<close>

lemma digit_cases: "d < 10 \<Longrightarrow> d \<in> {0, 1, 2, 3, 4, 5, 6, 7, 8, 9 :: nat}"
  by auto

lemma digit_val_digit_char: "d < 10 \<Longrightarrow> digit_val (digit_char d) = d"
  using digit_cases [of d] by (auto simp: digit_val_def digit_char_def)

lemma digit_char_in: "d < 10 \<Longrightarrow> digit_char d \<in> set ''0123456789''"
  using digit_cases [of d] by (auto simp: digit_char_def)

lemma digits_chars: "set (digits n) \<subseteq> set ''0123456789''"
proof (induction n rule: digits.induct)
  case (1 n)
  show ?case
  proof (cases "n < 10")
    case True
    then show ?thesis using digit_char_in [of n] by (subst digits.simps) simp
  next
    case False
    then show ?thesis
      using 1 digit_char_in [of "n mod 10"] by (subst digits.simps) simp
  qed
qed

lemma digits_not_Nil: "digits n \<noteq> []"
  by (subst digits.simps) simp

lemma parse_nat_snoc: "parse_nat (s @ [c]) = 10 * parse_nat s + digit_val c"
  by (simp add: parse_nat_def)

lemma parse_nat_digits: "parse_nat (digits n) = n"
proof (induction n rule: digits.induct)
  case (1 n)
  show ?case
  proof (cases "n < 10")
    case True
    then show ?thesis
      by (subst digits.simps) (simp add: parse_nat_def digit_val_digit_char)
  next
    case False
    then show ?thesis
      using 1 by (subst digits.simps) (simp add: parse_nat_snoc digit_val_digit_char)
  qed
qed

lemma parse_nat_zeros: "parse_nat (replicate k (CHR ''0'') @ s) = parse_nat s"
proof (induction k)
  case 0
  show ?case by simp
next
  case (Suc k)
  have "foldl (\<lambda>acc c. 10 * acc + digit_val c) 0 (CHR ''0'' # replicate k (CHR ''0'') @ s)
        = foldl (\<lambda>acc c. 10 * acc + digit_val c) 0 (replicate k (CHR ''0'') @ s)"
    by (simp add: digit_val_def)
  with Suc show ?case by (simp add: parse_nat_def)
qed

lemma parse_nat_zero_pad: "parse_nat (zero_pad w (digits n)) = n"
  by (simp add: zero_pad_def parse_nat_zeros parse_nat_digits)

lemma zero_pad_no_minus: "CHR ''-'' \<notin> set (zero_pad w (digits n))"
  using digits_chars [of n] by (auto simp: zero_pad_def)

lemma zero_pad_not_Nil: "zero_pad w (digits n) \<noteq> []"
  by (simp add: zero_pad_def digits_not_Nil)

lemma parse_int_format_04d: "parse_int (format_04d n) = n"
proof (cases "n < 0")
  case True
  then show ?thesis
    by (simp add: format_04d_def parse_int_def parse_nat_zero_pad)
next
  case False
  obtain c r where cr: "zero_pad 4 (digits (nat n)) = c # r"
    using zero_pad_not_Nil [of 4 "nat n"] by (cases "zero_pad 4 (digits (nat n))") auto
  then have "c \<noteq> CHR ''-''"
    using zero_pad_no_minus [of 4 "nat n"] by auto
  with False cr show ?thesis
    using parse_nat_zero_pad [of 4 "nat n"]
    by (simp add: format_04d_def parse_int_def)
qed

lemma batch_file_inj: "batch_file n = batch_file m \<Longrightarrow> n = m"
proof -
  assume "batch_file n = batch_file m"
  then have "format_04d n = format_04d m"
    by (simp add: batch_file_def)
  then have "parse_int (format_04d n) = parse_int (format_04d m)"
    by simp
  then show ?thesis
    by (simp add: parse_int_format_04d)
qed

lemma length_digits_small: "n < 10000 \<Longrightarrow> length (digits n) \<le> 4"
proof -
  assume n: "n < 10000"
  have "n div 10 div 10 div 10 < 10" using n by simp
  then show ?thesis
    by (simp add: digits.simps [of n] digits.simps [of "n div 10"]
        digits.simps [of "n div 10 div 10"] digits.simps [of "n div 10 div 10 div 10"])
qed

lemma format_04d_four:
  "0 \<le> n \<Longrightarrow> n < 10000 \<Longrightarrow>
     length (format_04d n) = 4 \<and> set (format_04d n) \<subseteq> set ''0123456789''"
  using length_digits_small [of "nat n"] digits_chars [of "nat n"]
  by (auto simp: format_04d_def zero_pad_def)

lemma batch_file_1: "batch_file 1 = ''batch_0001.csv''"
  by code_simp

lemma batch_file_12: "batch_file 12 = ''batch_0012.csv''"
  by code_simp

text \<open>
  C5, as the code has it. \<^verbatim>\<open>save_batch\<close> touches no file but the one named from the batch
  number, \<^verbatim>\<open>batch_\<close>, the number padded with zeros to four digits, \<^verbatim>\<open>.csv\<close>; different
  numbers give different names. It does not look whether the file exists: when the batch
  has a success the file holds the new frame afterwards, whatever it held before. The files
  are unchanged only when the batch has no success.
\<close>

theorem save_batch_overwrites:
  "(\<forall>name. name \<noteq> batch_file n \<longrightarrow> snd (snd (save_batch data n files)) name = files name)
   \<and> ((\<exists>d. Some d \<in> set data) \<longrightarrow>
        snd (snd (save_batch data n files)) (batch_file n)
          = Some (map the (filter (\<lambda>d. d \<noteq> None) data)))
   \<and> (\<not> (\<exists>d. Some d \<in> set data) \<longrightarrow> snd (snd (save_batch data n files)) = files)
   \<and> batch_file n = ''batch_'' @ format_04d n @ ''.csv''
   \<and> (0 \<le> n \<and> n < 10000 \<longrightarrow>
        length (format_04d n) = 4 \<and> set (format_04d n) \<subseteq> set ''0123456789'')
   \<and> (batch_file n = batch_file m \<longrightarrow> n = m)"
proof -
  have some: "(\<exists>d. Some d \<in> set data) \<longleftrightarrow> filter (\<lambda>d. d \<noteq> None) data \<noteq> []"
    by (auto simp: filter_empty_conv)
  show ?thesis
    using format_04d_four [of n] batch_file_inj [of n m]
    by (auto simp: some save_batch_cases batch_file_def)
qed

text \<open>
  C5, as stated, has \<^verbatim>\<open>save_batch\<close> leave an existing file of the batch unchanged. Saving
  a batch with one success as batch 1 replaces the frame that \<^verbatim>\<open>batch_0001.csv\<close> held.
\<close>

theorem save_batch_overwrites_counterexample:
  "batch_file 1 = ''batch_0001.csv''
   \<and> [batch_file 1 \<mapsto> [1::nat]] (batch_file 1) = Some [1]
   \<and> snd (snd (save_batch [Some (2::nat)] 1 [batch_file 1 \<mapsto> [1]])) (batch_file 1) = Some [2]"
  by (simp add: save_batch_def json_normalize_def batch_file_1 Let_def)

theorem save_batch_overwrites_witness:
  "batch_file 12 = ''batch_0012.csv''
   \<and> snd (snd (save_batch [None, Some (2::nat)] 12 [batch_file 12 \<mapsto> [1], ''notes.txt'' \<mapsto> []]))
       = [batch_file 12 \<mapsto> [2], ''notes.txt'' \<mapsto> []]
   \<and> snd (snd (save_batch [None :: nat option] 12 [batch_file 12 \<mapsto> [1]])) = [batch_file 12 \<mapsto> [1]]"
  using save_batch_overwrites [where n = 12 and m = 12 and data = "[None, Some (2::nat)]"
      and files = "[batch_file 12 \<mapsto> [1], ''notes.txt'' \<mapsto> []]"]
    save_batch_overwrites [where n = 12 and m = 12 and data = "[None :: nat option]"
      and files = "[batch_file 12 \<mapsto> [1]]"]
  by (auto simp: save_batch_def json_normalize_def batch_file_12 Let_def)

subsection \<open>Order and count of the rows\<close>

lemma fetch_requests_url: "Request u \<in> set (fst (fetch url out)) \<Longrightarrow> u = url"
  by (cases out) (auto simp: fetch_def split: sum.splits py_exception.splits json_call.splits if_splits)

lemma fetch_starts: "\<exists>rest. fst (fetch url out) = Acquire # Request url # rest"
  using fetch_shape [of url out] by auto

lemma fetch_with_retry_requests_url:
  "Request u \<in> set (fst (fetch_with_retry net url 3)) \<Longrightarrow> u = url"
  by (auto simp: fetch_with_retry_3 split: if_splits dest: fetch_requests_url)

lemma fetch_with_retry_starts:
  "\<exists>rest. fst (fetch_with_retry net url 3) = Acquire # Request url # rest"
proof -
  obtain rest where "fst (fetch url (net 0)) = Acquire # Request url # rest"
    using fetch_starts [of url "net 0"] by blast
  then show ?thesis
    by (simp add: fetch_with_retry_3)
qed

text \<open>
  C7. \<^verbatim>\<open>fetch_batch\<close> runs one task per URL. The task at position \<open>j\<close> requests the URL
  at position \<open>j\<close> and no other, and the entry at position \<open>j\<close> of the results is the result
  of that task, whatever the order in which the tasks finish: the results have one entry
  per URL, in the order of the URLs. When \<^verbatim>\<open>save_batch\<close> writes these results, the frame
  has at most as many rows as the batch has URLs, and its rows are the successes in the
  order of the URLs.
\<close>

theorem fetch_batch_order:
  "length (snd (fetch_batch net finish urls n)) = length urls
   \<and> length (fst (fetch_batch net finish urls n)) = length urls
   \<and> (\<forall>j < length urls.
        snd (fetch_batch net finish urls n) ! j
          = snd (fetch_with_retry (net j) (full_url (urls ! j)) 3)
      \<and> fst (fetch_batch net finish urls n) ! j
          = fst (fetch_with_retry (net j) (full_url (urls ! j)) 3)
      \<and> (\<exists>rest. fst (fetch_batch net finish urls n) ! j
                   = Acquire # Request (full_url (urls ! j)) # rest)
      \<and> (\<forall>u. Request u \<in> set (fst (fetch_batch net finish urls n) ! j)
               \<longrightarrow> u = full_url (urls ! j)))
   \<and> snd (fetch_batch net finish urls n) = snd (fetch_batch net finish' urls n)
   \<and> (\<forall>logged rows files'.
        save_batch (snd (fetch_batch net finish urls n)) n files = (logged, Some rows, files')
        \<longrightarrow> length rows \<le> length urls
          \<and> map Some rows = filter (\<lambda>d. d \<noteq> None) (snd (fetch_batch net finish urls n))
          \<and> subseq (map Some rows) (snd (fetch_batch net finish urls n))
          \<and> files' (batch_file n) = Some rows)"
proof -
  let ?results = "snd (fetch_batch net finish urls n)"
  let ?tasks = "fst (fetch_batch net finish urls n)"
  have len: "length ?results = length urls"
    by (simp add: fetch_batch_eq batch_tasks_length)
  have len': "length ?tasks = length urls"
    by (simp add: fetch_batch_eq batch_tasks_length)
  have nth: "?results ! j = snd (fetch_with_retry (net j) (full_url (urls ! j)) 3)
      \<and> ?tasks ! j = fst (fetch_with_retry (net j) (full_url (urls ! j)) 3)
      \<and> (\<exists>rest. ?tasks ! j = Acquire # Request (full_url (urls ! j)) # rest)
      \<and> (\<forall>u. Request u \<in> set (?tasks ! j) \<longrightarrow> u = full_url (urls ! j))"
    if j: "j < length urls" for j
  proof -
    have r: "?results ! j = snd (fetch_with_retry (net j) (full_url (urls ! j)) 3)"
      using j by (simp add: fetch_batch_eq batch_tasks_length batch_tasks_nth)
    have t: "?tasks ! j = fst (fetch_with_retry (net j) (full_url (urls ! j)) 3)"
      using j by (simp add: fetch_batch_eq batch_tasks_length batch_tasks_nth)
    have s: "\<exists>rest. ?tasks ! j = Acquire # Request (full_url (urls ! j)) # rest"
      unfolding t by (rule fetch_with_retry_starts)
    have u: "\<forall>u. Request u \<in> set (?tasks ! j) \<longrightarrow> u = full_url (urls ! j)"
      unfolding t using fetch_with_retry_requests_url by blast
    from r t s u show ?thesis by (intro conjI)
  qed
  have indep: "?results = snd (fetch_batch net finish' urls n)"
    by (simp add: fetch_batch_eq)
  have rows: "length rows \<le> length urls
          \<and> map Some rows = filter (\<lambda>d. d \<noteq> None) ?results
          \<and> subseq (map Some rows) ?results
          \<and> files' (batch_file n) = Some rows"
    if "save_batch ?results n files = (logged, Some rows, files')" for logged rows files'
  proof -
    from that have r: "rows = map the (filter (\<lambda>d. d \<noteq> None) ?results)"
      and f: "files' = files(batch_file n \<mapsto> rows)"
      by (auto simp: save_batch_cases split: if_splits)
    have "length rows \<le> length ?results"
      unfolding r by simp
    with len have "length rows \<le> length urls" by simp
    moreover have m: "map Some rows = filter (\<lambda>d. d \<noteq> None) ?results"
      unfolding r by (rule successes_rows)
    moreover have "subseq (map Some rows) ?results"
      unfolding m by simp
    moreover have "files' (batch_file n) = Some rows"
      using f by simp
    ultimately show ?thesis by (intro conjI)
  qed
  show ?thesis
  proof (intro conjI allI impI)
    show "length ?results = length urls" by (rule len)
    show "length ?tasks = length urls" by (rule len')
    show "?results = snd (fetch_batch net finish' urls n)" by (rule indep)
  next
    fix j assume j: "j < length urls"
    show "?results ! j = snd (fetch_with_retry (net j) (full_url (urls ! j)) 3)"
      using nth [OF j] by (elim conjE)
    show "?tasks ! j = fst (fetch_with_retry (net j) (full_url (urls ! j)) 3)"
      using nth [OF j] by (elim conjE)
    show "\<exists>rest. ?tasks ! j = Acquire # Request (full_url (urls ! j)) # rest"
      using nth [OF j] by (elim conjE)
    fix u assume "Request u \<in> set (?tasks ! j)"
    then show "u = full_url (urls ! j)"
      using nth [OF j] by (elim conjE) (rule allE, auto)
  next
    fix logged rows files'
    assume a: "save_batch ?results n files = (logged, Some rows, files')"
    show "length rows \<le> length urls" using rows [OF a] by (elim conjE)
    show "map Some rows = filter (\<lambda>d. d \<noteq> None) ?results" using rows [OF a] by (elim conjE)
    show "subseq (map Some rows) ?results" using rows [OF a] by (elim conjE)
    show "files' (batch_file n) = Some rows" using rows [OF a] by (elim conjE)
  qed
qed

theorem fetch_batch_order_witness:
  "snd (fetch_batch
          (\<lambda>j k. if j = 1 then GetRaises TimeoutError
                 else GetResponse 200 (Some ''application/json'') (JsonReturns (Some j)))
          (\<lambda>j. 5 - j) [''/a'', ''/b'', ''/c''] 1) = [Some 0, None, Some 2]
   \<and> fst (fetch_batch
          (\<lambda>j k. if j = 1 then GetRaises TimeoutError
                 else GetResponse 200 (Some ''application/json'') (JsonReturns (Some j)))
          (\<lambda>j. 5 - j) [''/a'', ''/b'', ''/c''] 1) ! 2
       = [Acquire, Request ''https://collections.louvre.fr/c.json'', Request_done, Release]
   \<and> save_batch [Some 0, None, Some (2::nat)] 1 Map.empty
       = ([], Some [0, 2], [batch_file 1 \<mapsto> [0, 2]])"
proof -
  let ?net = "\<lambda>(j::nat) (k::int). if j = 1 then GetRaises TimeoutError
                 else GetResponse 200 (Some ''application/json'') (JsonReturns (Some j))"
  have results: "snd (fetch_batch ?net (\<lambda>j. 5 - j) [''/a'', ''/b'', ''/c''] 1)
                   = [Some 0, None, Some 2]"
    by (simp add: fetch_batch_eq batch_tasks_def fetch_with_retry_3 fetch_def)
  have third: "fst (fetch_batch ?net (\<lambda>j. 5 - j) [''/a'', ''/b'', ''/c''] 1) ! 2
       = [Acquire, Request ''https://collections.louvre.fr/c.json'', Request_done, Release]"
    by (simp add: fetch_batch_eq batch_tasks_def fetch_with_retry_3 fetch_def full_url_def)
  have saved: "save_batch [Some 0, None, Some (2::nat)] 1 Map.empty
       = ([], Some [0, 2], [batch_file 1 \<mapsto> [0, 2]])"
    by (simp add: save_batch_def json_normalize_def Let_def)
  show ?thesis
    using results third saved
      fetch_batch_order [where net = ?net and finish = "\<lambda>j. 5 - j" and finish' = "\<lambda>j. j"
        and urls = "[''/a'', ''/b'', ''/c'']" and n = 1 and files = Map.empty]
    by simp
qed

subsection \<open>The batches of a run\<close>

lemma py_range_nat: "py_range 0 (int k) = map int [0..<k]"
proof (induction k)
  case 0
  show ?case by (simp add: py_range_def)
next
  case (Suc k)
  have "[0..int (Suc k) - 1] = [0..int k - 1] @ [int k]"
    using upto_rec2 [of 0 "int k"] by simp
  with Suc show ?case by (simp add: py_range_def)
qed

lemma py_range_0: "py_range 0 m = map int [0..<nat m]"
proof (cases "0 \<le> m")
  case True
  then show ?thesis using py_range_nat [of "nat m"] by simp
next
  case False
  then show ?thesis by (simp add: py_range_def)
qed

lemma py_slice_nat:
  "py_slice xs (int a) (int b) = drop a (take b xs)"
  by (simp add: py_slice_def py_index_def Let_def min_def)

lemma batch_calls_append_Main: "batch_calls (map Main es @ evs) = batch_calls evs"
  by (induction es) simp_all

lemma batch_calls_pause:
  "batch_calls ((if c then [Main e] else []) @ evs) = batch_calls evs"
  by simp

lemma process_loop_calls:
  "batch_calls (fst (process_loop B num net finish urls idxs files)) =
     map (\<lambda>i. (i + 1, py_slice urls (i * B) (min ((i + 1) * B) (int (length urls))))) idxs"
proof (induction idxs arbitrary: files)
  case Nil
  show ?case by simp
next
  case (Cons i idxs)
  show ?case
    by (simp add: Let_def split: prod.splits)
      (use Cons.IH in \<open>auto simp: batch_calls_append_Main dest!: arg_cong [where f = fst]\<close>)
qed

lemma concat_slices:
  "concat (map (\<lambda>i. drop (i * b) (take ((i + 1) * b) xs)) [0..<k]) = take (k * b) xs"
proof (induction k)
  case 0
  show ?case by simp
next
  case (Suc k)
  have "take (k * b) xs = take (k * b) (take (Suc k * b) xs)"
    by (simp add: min_def)
  moreover have "take (k * b) (take (Suc k * b) xs) @ drop (k * b) (take (Suc k * b) xs)
      = take (Suc k * b) xs"
    by (rule append_take_drop_id)
  ultimately have "take (k * b) xs @ drop (k * b) (take (Suc k * b) xs) = take (Suc k * b) xs"
    by simp
  with Suc show ?case by simp
qed

lemma nb_div:
  assumes "0 < (b::nat)"
  shows "(n + b - 1) div b = (if n mod b = 0 then n div b else n div b + 1)"
proof -
  define P where "P = b * (n div b)"
  have split: "P + n mod b = n" by (simp add: P_def)
  have less: "n mod b < b" using assms by simp
  have suc: "b * Suc (n div b) = P + b" "b * (n div b + 1) = P + b"
    "b * Suc (n div b + 1) = P + b + b"
    by (simp_all add: P_def)
  show ?thesis
  proof (cases "n mod b = 0")
    case True
    have "(n + b - 1) div b = n div b"
    proof (rule div_nat_eqI)
      show "b * (n div b) \<le> n + b - 1"
        unfolding P_def [symmetric] using split True assms by linarith
      show "n + b - 1 < b * Suc (n div b)"
        unfolding suc using split True assms by linarith
    qed
    with True show ?thesis by simp
  next
    case False
    have "(n + b - 1) div b = n div b + 1"
    proof (rule div_nat_eqI)
      show "b * (n div b + 1) \<le> n + b - 1"
        unfolding suc using split False assms by linarith
      show "n + b - 1 < b * Suc (n div b + 1)"
        unfolding suc using split less assms by linarith
    qed
    with False show ?thesis by simp
  qed
qed

lemma num_times:
  assumes "0 < (b::nat)"
  shows "(n + b - 1) div b * b = (if n mod b = 0 then n else n - n mod b + b)"
proof -
  define Q where "Q = n div b"
  have split: "Q * b + n mod b = n" by (simp add: Q_def)
  have k: "(n + b - 1) div b = (if n mod b = 0 then Q else Q + 1)"
    using nb_div [OF assms, of n] by (simp add: Q_def)
  show ?thesis
  proof (cases "n mod b = 0")
    case True
    with split k show ?thesis by simp
  next
    case False
    have "(Q + 1) * b = Q * b + b" by simp
    with False split k show ?thesis by simp
  qed
qed

lemma num_pred_times:
  assumes "0 < (b::nat)" and "0 < n"
  shows "((n + b - 1) div b - 1) * b = (if n mod b = 0 then n - b else n - n mod b)"
    and "n mod b = 0 \<Longrightarrow> b \<le> n"
proof -
  define Q where "Q = n div b"
  have split: "Q * b + n mod b = n" by (simp add: Q_def)
  have k: "(n + b - 1) div b = (if n mod b = 0 then Q else Q + 1)"
    using nb_div [OF assms(1), of n] by (simp add: Q_def)
  show le: "b \<le> n" if "n mod b = 0"
    using that assms by (simp add: dvd_imp_le mod_eq_0_iff_dvd)
  show "((n + b - 1) div b - 1) * b = (if n mod b = 0 then n - b else n - n mod b)"
  proof (cases "n mod b = 0")
    case True
    have "(Q - 1) * b = Q * b - b" by (simp add: diff_mult_distrib)
    with True split k show ?thesis by simp
  next
    case False
    with split k show ?thesis by simp
  qed
qed

lemma cover: "0 < (b::nat) \<Longrightarrow> n \<le> ((n + b - 1) div b) * b"
proof -
  assume b: "0 < b"
  have less: "n mod b < b" using b by simp
  have le: "n mod b \<le> n" by simp
  show ?thesis
  proof (cases "n mod b = 0")
    case True
    then show ?thesis unfolding num_times [OF b] by simp
  next
    case False
    have "n \<le> n - n mod b + b" using less le by linarith
    with False show ?thesis unfolding num_times [OF b] by simp
  qed
qed

lemma before_last: "0 < (b::nat) \<Longrightarrow> 0 < n \<Longrightarrow> ((n + b - 1) div b - 1) * b < n"
proof -
  assume b: "0 < b" and n: "0 < n"
  show ?thesis
    unfolding num_pred_times(1) [OF b n] using b n by auto
qed

lemma last_size: "0 < (b::nat) \<Longrightarrow> 0 < n \<Longrightarrow>
   n - ((n + b - 1) div b - 1) * b = (if n mod b = 0 then b else n mod b)"
proof -
  assume b: "0 < b" and n: "0 < n"
  have "n mod b \<le> n" by simp
  then show ?thesis
    unfolding num_pred_times(1) [OF b n] using num_pred_times(2) [OF b n] by auto
qed

lemma ceil_div:
  assumes "0 < B"
  shows "\<lceil>real_of_int N / real_of_int B\<rceil> = (N + B - 1) div B"
proof -
  define q where "q = (N + B - 1) div B"
  define r where "r = (N + B - 1) mod B"
  have eq: "N + B - 1 = B * q + r" by (simp add: q_def r_def)
  have r: "0 \<le> r" "r < B" using assms by (simp_all add: r_def)
  have "- N = B * (- q) + (B - 1 - r)" using eq by (simp add: algebra_simps)
  moreover have "0 \<le> B - 1 - r" "B - 1 - r < B" using r by simp_all
  ultimately have "- N div B = - q" by (rule int_div_pos_eq)
  then show ?thesis
    by (simp add: ceiling_divide_eq_div q_def)
qed

lemma num_batches_nat:
  "0 < b \<Longrightarrow> (int n + int b - 1) div int b = int ((n + b - 1) div b)"
proof -
  assume "0 < b"
  then have "int n + int b - 1 = int (n + b - 1)" by simp
  then show ?thesis by (simp only: zdiv_int)
qed

lemma take_min_length: "take (min m (length xs)) xs = take m xs"
  by (simp add: min_def)

lemma process_all_batches_calls:
  assumes "0 < B"
  shows "batch_calls (fst (process_all_batches B net finish urls files)) =
     map (\<lambda>j. (int j + 1, drop (j * nat B) (take ((j + 1) * nat B) urls)))
       [0..<(length urls + nat B - 1) div nat B]"
proof -
  define b where "b = nat B"
  have b: "0 < b" and B: "B = int b" using assms by (simp_all add: b_def)
  have slice: "py_slice urls (int j * int b) (min ((int j + 1) * int b) (int (length urls)))
        = drop (j * b) (take ((j + 1) * b) urls)" for j
  proof -
    have s: "int j * int b = int (j * b)" by simp
    have e: "(int j + 1) * int b = int ((j + 1) * b)" by (simp add: algebra_simps)
    have m: "min (int ((j + 1) * b)) (int (length urls))
        = int (min ((j + 1) * b) (length urls))"
      by (rule of_nat_min [symmetric])
    show ?thesis
      by (simp only: s e m py_slice_nat take_min_length)
  qed
  have "batch_calls (fst (process_all_batches (int b) net finish urls files)) =
     map (\<lambda>j. (int j + 1, drop (j * b) (take ((j + 1) * b) urls)))
       [0..<(length urls + b - 1) div b]"
    by (simp only: process_all_batches_def Let_def process_loop_calls py_range_0
        num_batches_nat [OF b] nat_int map_map o_def slice)
  then have "batch_calls (fst (process_all_batches B net finish urls files)) =
     map (\<lambda>j. (int j + 1, drop (j * b) (take ((j + 1) * b) urls)))
       [0..<(length urls + b - 1) div b]"
    unfolding B [symmetric] .
  then show ?thesis
    unfolding b_def .
qed

lemma slices_props:
  fixes b :: nat and xs :: "'a list"
  assumes b: "0 < b"
  defines "k \<equiv> (length xs + b - 1) div b"
  defines "cs \<equiv> map (\<lambda>j. (int j + 1, drop (j * b) (take ((j + 1) * b) xs))) [0..<k]"
  shows "length cs = k"
    and "i < length cs \<Longrightarrow> fst (cs ! i) = int i + 1"
    and "i < length cs \<Longrightarrow>
           snd (cs ! i) = drop (i * b) (take (min ((i + 1) * b) (length xs)) xs)"
    and "concat (map snd cs) = xs"
    and "i + 1 < length cs \<Longrightarrow> length (snd (cs ! i)) = b"
    and "cs \<noteq> [] \<Longrightarrow>
           length (snd (last cs)) = (if length xs mod b = 0 then b else length xs mod b)"
proof -
  let ?n = "length xs"
  show len: "length cs = k" by (simp add: cs_def)
  show "fst (cs ! i) = int i + 1" if "i < length cs"
    using that by (simp add: cs_def)
  show "snd (cs ! i) = drop (i * b) (take (min ((i + 1) * b) ?n) xs)" if "i < length cs"
    using that by (simp add: cs_def take_min_length)
  have cov: "?n \<le> k * b" unfolding k_def by (rule cover [OF b])
  have "concat (map snd cs) = take (k * b) xs"
    using concat_slices [of b xs k] by (simp add: cs_def o_def)
  with cov show "concat (map snd cs) = xs" by simp
  show "length (snd (cs ! i)) = b" if "i + 1 < length cs"
  proof -
    from that have i: "i + 1 < k" by (simp add: len)
    then have "0 < ?n" unfolding k_def using b by (cases "?n = 0") auto
    then have "(k - 1) * b < ?n" unfolding k_def by (rule before_last [OF b])
    moreover have "i + 1 \<le> k - 1" using i by simp
    then have "(i + 1) * b \<le> (k - 1) * b" by (rule mult_le_mono1)
    ultimately have "(i + 1) * b \<le> ?n" by linarith
    with i show ?thesis by (simp add: cs_def)
  qed
  show "length (snd (last cs)) = (if ?n mod b = 0 then b else ?n mod b)" if "cs \<noteq> []"
  proof -
    from that obtain k' where k: "k = Suc k'" using len by (cases k) auto
    then have n: "0 < ?n" unfolding k_def using b by (cases "?n = 0") auto
    have "last cs = cs ! k'" using that len k by (simp add: last_conv_nth)
    then have "length (snd (last cs)) = min (Suc k' * b) ?n - k' * b"
      using k by (simp add: cs_def min.commute)
    moreover have "?n \<le> Suc k' * b" using cov by (simp only: k)
    ultimately have "length (snd (last cs)) = ?n - (k - 1) * b" by (simp add: min_def k)
    then show ?thesis
      unfolding k_def using last_size [OF b n] by simp
  qed
qed

lemma last_size_int:
  assumes "0 < B"
  shows "int (if n mod nat B = 0 then nat B else n mod nat B)
           = (if int n mod B = 0 then B else int n mod B)"
proof -
  define b where "b = nat B"
  have B: "B = int b" using assms by (simp add: b_def)
  have m: "int n mod int b = int (n mod b)" by (simp add: zmod_int)
  have "int (if n mod b = 0 then b else n mod b)
           = (if int n mod int b = 0 then int b else int n mod int b)"
    unfolding m by simp
  then have "int (if n mod b = 0 then b else n mod b)
           = (if int n mod B = 0 then B else int n mod B)"
    unfolding B [symmetric] .
  then show ?thesis
    unfolding b_def .
qed

lemma process_loop_tasks:
  "Fetch_batch us n tasks \<in> set (fst (process_loop B num net finish urls idxs files)) \<Longrightarrow>
     tasks = fst (fetch_batch (net (n - 1)) (finish (n - 1)) us n)"
proof (induction idxs arbitrary: files)
  case Nil
  then show ?case by simp
next
  case (Cons i idxs)
  obtain tasks' data where fb: "fetch_batch (net i) (finish i)
      (py_slice urls (i * B) (min ((i + 1) * B) (int (length urls)))) (i + 1) = (tasks', data)"
    by (cases "fetch_batch (net i) (finish i)
      (py_slice urls (i * B) (min ((i + 1) * B) (int (length urls)))) (i + 1)")
  obtain logged df files' where sb: "save_batch data (i + 1) files = (logged, df, files')"
    by (cases "save_batch data (i + 1) files")
  obtain evs dfs files'' where rest:
    "process_loop B num net finish urls idxs files' = (evs, dfs, files'')"
    by (cases "process_loop B num net finish urls idxs files'")
  from Cons.prems have "Fetch_batch us n tasks
      = Fetch_batch (py_slice urls (i * B) (min ((i + 1) * B) (int (length urls)))) (i + 1) tasks'
    \<or> Fetch_batch us n tasks \<in> set evs"
    by (auto simp: Let_def fb sb rest split: if_splits)
  then show ?case
  proof
    assume "Fetch_batch us n tasks
      = Fetch_batch (py_slice urls (i * B) (min ((i + 1) * B) (int (length urls)))) (i + 1) tasks'"
    then show ?thesis using fb by auto
  next
    assume "Fetch_batch us n tasks \<in> set evs"
    then show ?thesis using Cons.IH [of files'] by (simp add: rest)
  qed
qed

text \<open>
  C4. For a batch size \<open>B > 0\<close> and \<open>N\<close> URLs, \<^verbatim>\<open>process_all_batches\<close> calls
  \<^verbatim>\<open>fetch_batch\<close> exactly \<open>\<lceil>N / B\<rceil>\<close> times. The call at position \<open>i\<close> (from 0) has batch
  number \<open>i + 1\<close> and receives the URLs at the positions from \<open>i * B\<close> up to, but not
  including, \<open>min ((i + 1) * B) N\<close>. Put one after the other, the batches give the list of
  URLs back, so that every URL is in exactly one batch. Every batch but the last holds \<open>B\<close>
  URLs, and the last holds \<open>N mod B\<close>, or \<open>B\<close> when \<open>B\<close> divides \<open>N\<close>. These calls are
  all the fetching that the run does, and the tasks of each call are those of
  \<^verbatim>\<open>fetch_batch\<close> on the URLs of the batch.
\<close>

theorem batch_partition:
  assumes "0 < B"
  shows "let calls = batch_calls (fst (process_all_batches B net finish df_urls files));
             N = length df_urls
         in int (length calls) = \<lceil>real N / real_of_int B\<rceil>
          \<and> (\<forall>i < length calls.
                fst (calls ! i) = int i + 1
              \<and> snd (calls ! i)
                  = drop (i * nat B) (take (min ((i + 1) * nat B) N) df_urls))
          \<and> concat (map snd calls) = df_urls
          \<and> (\<forall>i. i + 1 < length calls \<longrightarrow> length (snd (calls ! i)) = nat B)
          \<and> (calls \<noteq> [] \<longrightarrow>
                int (length (snd (last calls)))
                  = (if int N mod B = 0 then B else int N mod B))
          \<and> (\<forall>urls n tasks.
                Fetch_batch urls n tasks
                  \<in> set (fst (process_all_batches B net finish df_urls files)) \<longrightarrow>
                (n, urls) \<in> set calls
              \<and> tasks = fst (fetch_batch (net (n - 1)) (finish (n - 1)) urls n))"
proof -
  let ?calls = "batch_calls (fst (process_all_batches B net finish df_urls files))"
  have tie: "tasks = fst (fetch_batch (net (n - 1)) (finish (n - 1)) urls n)"
    if "Fetch_batch urls n tasks \<in> set (fst (process_all_batches B net finish df_urls files))"
    for urls n tasks
    using that unfolding process_all_batches_def Let_def by (rule process_loop_tasks)
  have rec: "(n, urls) \<in> set (batch_calls evs)" if "Fetch_batch urls n tasks \<in> set evs"
    for urls n tasks evs
    using that by (induction evs rule: batch_calls.induct) auto
  have b: "0 < nat B" using assms by simp
  note calls = process_all_batches_calls [OF assms, of net finish df_urls files]
  note props = slices_props [OF b, where xs = df_urls, folded calls]
  have "int (length ?calls) = int ((length df_urls + nat B - 1) div nat B)"
    by (simp only: props(1))
  also have "\<dots> = (int (length df_urls) + int (nat B) - 1) div int (nat B)"
    by (rule num_batches_nat [OF b, symmetric])
  also have "\<dots> = (int (length df_urls) + B - 1) div B"
    using assms by simp
  also have "\<dots> = \<lceil>real_of_int (int (length df_urls)) / real_of_int B\<rceil>"
    by (rule ceil_div [OF assms, symmetric])
  finally have count: "int (length ?calls) = \<lceil>real (length df_urls) / real_of_int B\<rceil>"
    by simp
  show ?thesis
    unfolding Let_def
  proof (intro conjI allI impI)
    show "int (length ?calls) = \<lceil>real (length df_urls) / real_of_int B\<rceil>"
      by (rule count)
  next
    fix i assume i: "i < length ?calls"
    show "fst (?calls ! i) = int i + 1"
      using i by (rule props(2))
    show "snd (?calls ! i)
        = drop (i * nat B) (take (min ((i + 1) * nat B) (length df_urls)) df_urls)"
      using i by (rule props(3))
  next
    show "concat (map snd ?calls) = df_urls"
      by (rule props(4))
  next
    fix i assume "i + 1 < length ?calls"
    then show "length (snd (?calls ! i)) = nat B"
      by (rule props(5))
  next
    assume "?calls \<noteq> []"
    then have "length (snd (last ?calls))
        = (if length df_urls mod nat B = 0 then nat B else length df_urls mod nat B)"
      by (rule props(6))
    then show "int (length (snd (last ?calls)))
        = (if int (length df_urls) mod B = 0 then B else int (length df_urls) mod B)"
      by (simp only: last_size_int [OF assms])
  next
    fix urls n tasks
    assume a: "Fetch_batch urls n tasks
        \<in> set (fst (process_all_batches B net finish df_urls files))"
    show "(n, urls) \<in> set ?calls" using a by (rule rec)
    show "tasks = fst (fetch_batch (net (n - 1)) (finish (n - 1)) urls n)"
      using a by (rule tie)
  qed
qed


theorem batch_partition_witness:
  "(0::int) < 2
   \<and> batch_calls (fst (process_all_batches 2
          (\<lambda>i j k. GetRaises TimeoutError :: nat get_outcome) (\<lambda>i j. j)
          [''/a'', ''/b'', ''/c''] Map.empty))
       = [(1, [''/a'', ''/b'']), (2, [''/c''])]"
proof -
  have pos: "(0::int) < 2" by simp
  have "[0..<2] = [0, Suc 0]" by (simp add: upt_rec)
  then have "batch_calls (fst (process_all_batches 2
          (\<lambda>i j k. GetRaises TimeoutError :: nat get_outcome) (\<lambda>i j. j)
          [''/a'', ''/b'', ''/c''] Map.empty))
       = [(1, [''/a'', ''/b'']), (2, [''/c''])]"
    by (simp add: process_all_batches_calls [OF pos])
  then show ?thesis
    using batch_partition [OF pos, where net = "\<lambda>i j k. GetRaises TimeoutError :: nat get_outcome"
        and finish = "\<lambda>i j. j" and df_urls = "[''/a'', ''/b'', ''/c'']" and files = Map.empty]
    by simp
qed

subsection \<open>The steps of a run\<close>

lemma steps_append: "steps (xs @ ys) = steps xs @ steps ys"
  by (induction xs rule: steps.induct) simp_all

lemma network_calls_append: "network_calls (xs @ ys) = network_calls xs + network_calls ys"
  by (induction xs rule: network_calls.induct) simp_all

lemma batch_calls_append: "batch_calls (xs @ ys) = batch_calls xs @ batch_calls ys"
  by (induction xs rule: batch_calls.induct) simp_all

lemma save_batch_log:
  "steps (map Main (fst (save_batch data n files))) = []"
  "batch_calls (map Main (fst (save_batch data n files))) = []"
  by (simp_all add: save_batch_cases)

lemma save_batch_other_file:
  "m \<noteq> n \<Longrightarrow> snd (snd (save_batch data n files)) (batch_file m) = files (batch_file m)"
  using batch_file_inj [of m n] by (auto simp: save_batch_cases)

lemma pause_simps:
  "steps (if c then [Main (Sleep s)] else []) = (if c then [Slept s] else [])"
  "batch_calls (if c then [Main (Sleep s)] else []) = []"
  by simp_all

lemma process_loop_steps:
  "steps (fst (process_loop B num net finish urls idxs files)) =
     concat (map (\<lambda>i. Fetched (i + 1) # (if i < num - 1 then [Slept 5] else [])) idxs)"
proof (induction idxs arbitrary: files)
  case Nil
  show ?case by simp
next
  case (Cons i idxs)
  obtain tasks data where fb: "fetch_batch (net i) (finish i)
      (py_slice urls (i * B) (min ((i + 1) * B) (int (length urls)))) (i + 1) = (tasks, data)"
    by (cases "fetch_batch (net i) (finish i)
      (py_slice urls (i * B) (min ((i + 1) * B) (int (length urls)))) (i + 1)")
  obtain logged df files' where sb: "save_batch data (i + 1) files = (logged, df, files')"
    by (cases "save_batch data (i + 1) files")
  obtain evs dfs files'' where rest:
    "process_loop B num net finish urls idxs files' = (evs, dfs, files'')"
    by (cases "process_loop B num net finish urls idxs files'")
  have lg: "steps (map Main logged) = []"
    using save_batch_log(1) [of data "i + 1" files] by (simp add: sb)
  have "steps evs = concat (map (\<lambda>i. Fetched (i + 1) # (if i < num - 1 then [Slept 5] else [])) idxs)"
    using Cons.IH [of files'] by (simp add: rest)
  then show ?case
    by (simp add: Let_def fb sb rest steps_append lg)
qed

lemma resume_loop_all_exist:
  "\<forall>i \<in> set idxs. files (batch_file (i + 1)) \<noteq> None \<Longrightarrow>
     resume_loop B num net finish urls idxs files = ([], files)"
  by (induction idxs) (simp_all add: Let_def)

lemma resume_loop_trace:
  assumes "distinct idxs"
  shows "steps (fst (resume_loop B num net finish urls idxs files)) =
     concat (map (\<lambda>i. if files (batch_file (i + 1)) \<noteq> None then []
                       else Fetched (i + 1) # (if i < num - 1 then [Slept 5] else [])) idxs)
   \<and> batch_calls (fst (resume_loop B num net finish urls idxs files)) =
     map (\<lambda>i. (i + 1, py_slice urls (i * B) (min ((i + 1) * B) (int (length urls)))))
       (filter (\<lambda>i. files (batch_file (i + 1)) = None) idxs)"
  using assms
proof (induction idxs arbitrary: files)
  case Nil
  show ?case by simp
next
  case (Cons i idxs)
  let ?f = "\<lambda>files i. if files (batch_file (i + 1)) \<noteq> None then []
                       else Fetched (i + 1) # (if i < num - 1 then [Slept 5] else [])"
  let ?g = "\<lambda>i. (i + 1, py_slice urls (i * B) (min ((i + 1) * B) (int (length urls))))"
  from Cons.prems have d: "distinct idxs" and ni: "i \<notin> set idxs" by simp_all
  show ?case
  proof (cases "files (batch_file (i + 1)) \<noteq> None")
    case True
    then show ?thesis using Cons.IH [OF d, of files] by (simp add: Let_def)
  next
    case False
    obtain tasks data where fb: "fetch_batch (net i) (finish i)
        (py_slice urls (i * B) (min ((i + 1) * B) (int (length urls)))) (i + 1) = (tasks, data)"
      by (cases "fetch_batch (net i) (finish i)
        (py_slice urls (i * B) (min ((i + 1) * B) (int (length urls)))) (i + 1)")
    obtain logged df files' where sb: "save_batch data (i + 1) files = (logged, df, files')"
      by (cases "save_batch data (i + 1) files")
    obtain evs files'' where rest:
      "resume_loop B num net finish urls idxs files' = (evs, files'')"
      by (cases "resume_loop B num net finish urls idxs files'")
    have lg: "steps (map Main logged) = []" "batch_calls (map Main logged) = []"
      using save_batch_log [of data "i + 1" files] by (simp_all add: sb)
    have same: "files' (batch_file (j + 1)) = files (batch_file (j + 1))" if "j \<in> set idxs" for j
    proof -
      from that ni have "j + 1 \<noteq> i + 1" by auto
      then show ?thesis
        using save_batch_other_file [of "j + 1" "i + 1" data files] by (simp add: sb)
    qed
    have m1: "map (?f files') idxs = map (?f files) idxs"
      by (rule map_cong) (simp_all add: same)
    have m2: "filter (\<lambda>i. files' (batch_file (i + 1)) = None) idxs
        = filter (\<lambda>i. files (batch_file (i + 1)) = None) idxs"
      by (rule filter_cong) (simp_all add: same)
    have "steps evs = concat (map (?f files') idxs)"
        "batch_calls evs = map ?g (filter (\<lambda>i. files' (batch_file (i + 1)) = None) idxs)"
      using Cons.IH [OF d, of files'] by (simp_all add: rest)
    then have ih: "steps evs = concat (map (?f files) idxs)"
        "batch_calls evs = map ?g (filter (\<lambda>i. files (batch_file (i + 1)) = None) idxs)"
      unfolding m1 m2 .
    show ?thesis
      using False ih
      by (simp add: Let_def fb sb rest steps_append batch_calls_append lg)
  qed
qed


lemma distinct_py_range: "distinct (py_range a b)"
  by (simp add: py_range_def)

lemma batch_file_eq_iff: "batch_file n = batch_file m \<longleftrightarrow> n = m"
  using batch_file_inj by blast

lemma py_range_two: "py_range 0 2 = [0, 1]" "py_range 0 1 = [0]"
  by (simp_all add: py_range_def upto.simps)

text \<open>
  C8, as the code has it. \<^verbatim>\<open>process_all_batches\<close> fetches every batch and sleeps 5
  after each one but the last, whether or not the batch was saved. \<^verbatim>\<open>resume_from_batch\<close>
  does the same for the batches it fetches; a batch that it skips because its file exists is
  followed by no sleep. Neither sleeps after the last batch.
\<close>

theorem cooldown_after_fetched_batches:
  assumes "0 < B"
  shows "let num_batches = (int (length df_urls) + B - 1) div B
         in steps (fst (process_all_batches B net finish df_urls files)) =
              concat (map (\<lambda>i. Fetched (i + 1) # (if i < num_batches - 1 then [Slept 5] else []))
                (py_range 0 num_batches))
          \<and> steps (fst (resume_from_batch B net finish df_urls start_batch files)) =
              concat (map (\<lambda>i. if files (batch_file (i + 1)) \<noteq> None then []
                               else Fetched (i + 1) #
                                 (if i < num_batches - 1 then [Slept 5] else []))
                (py_range (start_batch - 1) num_batches))"
  by (simp add: Let_def process_all_batches_def resume_from_batch_def process_loop_steps
      resume_loop_trace [OF distinct_py_range, THEN conjunct1])

text \<open>
  C8, as stated, has a sleep after a skipped batch that is not the last. With two batches,
  of which the first has its file, the run skips batch 1 and fetches batch 2 at once.
\<close>

theorem cooldown_after_skip_counterexample:
  "[batch_file 1 \<mapsto> [7::nat]] (batch_file 1) \<noteq> None
   \<and> steps (fst (resume_from_batch 1 (\<lambda>i j k. GetRaises TimeoutError) (\<lambda>i j. j)
        [''/a'', ''/b''] 1 [batch_file 1 \<mapsto> [7::nat]])) = [Fetched 2]"
proof -
  have "steps (fst (resume_loop 1 2 (\<lambda>i j k. GetRaises TimeoutError) (\<lambda>i j. j)
        [''/a'', ''/b''] [0, 1] [batch_file 1 \<mapsto> [7::nat]])) = [Fetched 2]"
    using resume_loop_trace [of "[0, 1]" 1 2 "\<lambda>i j k. GetRaises TimeoutError" "\<lambda>i j. j"
        "[''/a'', ''/b'']" "[batch_file 1 \<mapsto> [7::nat]]"]
    by (simp add: batch_file_eq_iff)
  then show ?thesis
    by (simp add: resume_from_batch_def py_range_two)
qed

theorem cooldown_after_fetched_batches_witness:
  "(0::int) < 1
   \<and> steps (fst (process_all_batches 1 (\<lambda>i j k. GetRaises TimeoutError :: nat get_outcome)
        (\<lambda>i j. j) [''/a'', ''/b''] Map.empty)) = [Fetched 1, Slept 5, Fetched 2]"
proof -
  have pos: "(0::int) < 1" by simp
  show ?thesis
    using cooldown_after_fetched_batches [OF pos,
        where net = "\<lambda>i j k. GetRaises TimeoutError :: nat get_outcome"
        and finish = "\<lambda>i j. j" and df_urls = "[''/a'', ''/b'']" and files = Map.empty
        and start_batch = 1]
    by (simp add: py_range_two)
qed

subsection \<open>Resuming\<close>

text \<open>
  C1, as the code has it. \<^verbatim>\<open>resume_from_batch\<close> looks for the file of a batch before it
  fetches it, and goes on to the next batch when the file exists. The batches it fetches are
  those from \<^verbatim>\<open>start_batch\<close> on whose file does not exist when the run starts; no URL of a
  batch whose file exists is requested. When the file of every batch from \<^verbatim>\<open>start_batch\<close> on
  exists, the run makes no request and changes no file.
\<close>

theorem resume_skips_existing_batches:
  assumes "0 < B"
  shows "let num_batches = (int (length df_urls) + B - 1) div B;
             todo = py_range (start_batch - 1) num_batches;
             run = resume_from_batch B net finish df_urls start_batch files
         in (files (batch_file (i + 1)) \<noteq> None \<longrightarrow>
               resume_loop B num_batches net finish df_urls (i # rest) files
                 = resume_loop B num_batches net finish df_urls rest files)
          \<and> batch_calls (fst run) =
               map (\<lambda>i. (i + 1,
                      py_slice df_urls (i * B) (min ((i + 1) * B) (int (length df_urls)))))
                 (filter (\<lambda>i. files (batch_file (i + 1)) = None) todo)
          \<and> (\<forall>n urls. files (batch_file n) \<noteq> None \<longrightarrow> (n, urls) \<notin> set (batch_calls (fst run)))
          \<and> ((\<forall>i \<in> set todo. files (batch_file (i + 1)) \<noteq> None) \<longrightarrow>
               run = ([], files) \<and> network_calls (fst run) = 0)"
proof -
  let ?num = "(int (length df_urls) + B - 1) div B"
  let ?todo = "py_range (start_batch - 1) ?num"
  let ?run = "resume_from_batch B net finish df_urls start_batch files"
  have run: "?run = resume_loop B ?num net finish df_urls ?todo files"
    by (simp add: resume_from_batch_def Let_def)
  have skip: "resume_loop B ?num net finish df_urls (i # rest) files
                 = resume_loop B ?num net finish df_urls rest files"
    if "files (batch_file (i + 1)) \<noteq> None"
    using that by (simp add: Let_def)
  have calls: "batch_calls (fst ?run) =
               map (\<lambda>i. (i + 1,
                      py_slice df_urls (i * B) (min ((i + 1) * B) (int (length df_urls)))))
                 (filter (\<lambda>i. files (batch_file (i + 1)) = None) ?todo)"
    unfolding run using resume_loop_trace [OF distinct_py_range] by blast
  have absent: "(n, urls) \<notin> set (batch_calls (fst ?run))"
    if "files (batch_file n) \<noteq> None" for n urls
    unfolding calls using that by auto
  have none: "?run = ([], files) \<and> network_calls (fst ?run) = 0"
    if "\<forall>i \<in> set ?todo. files (batch_file (i + 1)) \<noteq> None"
    unfolding run using resume_loop_all_exist [OF that] by simp
  show ?thesis
    unfolding Let_def
  proof (intro conjI allI impI)
    assume "files (batch_file (i + 1)) \<noteq> None"
    then show "resume_loop B ?num net finish df_urls (i # rest) files
                 = resume_loop B ?num net finish df_urls rest files"
      by (rule skip)
  next
    show "batch_calls (fst ?run) =
               map (\<lambda>i. (i + 1,
                      py_slice df_urls (i * B) (min ((i + 1) * B) (int (length df_urls)))))
                 (filter (\<lambda>i. files (batch_file (i + 1)) = None) ?todo)"
      by (rule calls)
  next
    fix n urls assume "files (batch_file n) \<noteq> None"
    then show "(n, urls) \<notin> set (batch_calls (fst ?run))"
      by (rule absent)
  next
    assume a: "\<forall>i \<in> set ?todo. files (batch_file (i + 1)) \<noteq> None"
    show "?run = ([], files)" using none [OF a] by (rule conjunct1)
    show "network_calls (fst ?run) = 0" using none [OF a] by (rule conjunct2)
  qed
qed

lemma single_url_run:
  "process_all_batches BATCH_SIZE
      (\<lambda>i j k. GetResponse 200 (Some ''application/json'') (JsonReturns (Some (7::nat))))
      (\<lambda>i j. j) [''/a''] files
   = ([Fetch_batch [''/a''] 1
         [[Acquire, Request ''https://collections.louvre.fr/a.json'', Request_done, Release]]],
      [[7]], files(batch_file 1 \<mapsto> [7]))"
proof -
  have n: "(int (length [''/a'']) + BATCH_SIZE - 1) div BATCH_SIZE = 1"
    by (simp add: BATCH_SIZE_def)
  have sl: "py_slice [''/a''] (0 * BATCH_SIZE) (min ((0 + 1) * BATCH_SIZE) (int (length [''/a''])))
      = [''/a'']"
    by (simp add: BATCH_SIZE_def py_slice_def py_index_def)
  have fb: "fetch_batch
      (\<lambda>j k. GetResponse 200 (Some ''application/json'') (JsonReturns (Some (7::nat))))
      (\<lambda>j. j) [''/a''] 1
      = ([[Acquire, Request ''https://collections.louvre.fr/a.json'', Request_done, Release]],
         [Some 7])"
    by (simp add: fetch_batch_eq batch_tasks_def fetch_with_retry_3 fetch_def full_url_def)
  have sb: "save_batch [Some (7::nat)] 1 files = ([], Some [7], files(batch_file 1 \<mapsto> [7]))"
    by (simp add: save_batch_cases)
  show ?thesis
    unfolding process_all_batches_def Let_def n py_range_two process_loop.simps sl
    by (simp add: fb sb)
qed

text \<open>
  C1, as stated, is about running the fetcher a second time. The script runs
  \<^verbatim>\<open>process_all_batches\<close>, which does not look at the files: after a first run that wrote
  \<^verbatim>\<open>batch_0001.csv\<close>, a second run over the same URL requests it again.
\<close>

theorem rerun_fetches_again_counterexample:
  "snd (snd (process_all_batches BATCH_SIZE
      (\<lambda>i j k. GetResponse 200 (Some ''application/json'') (JsonReturns (Some (7::nat))))
      (\<lambda>i j. j) [''/a''] Map.empty)) (batch_file 1) = Some [7]
   \<and> network_calls (fst (process_all_batches BATCH_SIZE
      (\<lambda>i j k. GetResponse 200 (Some ''application/json'') (JsonReturns (Some (7::nat))))
      (\<lambda>i j. j) [''/a'']
      (snd (snd (process_all_batches BATCH_SIZE
        (\<lambda>i j k. GetResponse 200 (Some ''application/json'') (JsonReturns (Some (7::nat))))
        (\<lambda>i j. j) [''/a''] Map.empty))))) = 1"
  by (simp add: single_url_run requests_def)



theorem resume_skips_existing_batches_witness:
  "(0::int) < 1
   \<and> resume_from_batch 1 (\<lambda>i j k. GetRaises TimeoutError) (\<lambda>i j. j) [''/a'', ''/b''] 1
        [batch_file 1 \<mapsto> [7::nat], batch_file 2 \<mapsto> [8]]
       = ([], [batch_file 1 \<mapsto> [7::nat], batch_file 2 \<mapsto> [8]])
   \<and> batch_calls (fst (resume_from_batch 1 (\<lambda>i j k. GetRaises TimeoutError) (\<lambda>i j. j)
        [''/a'', ''/b''] 1 [batch_file 1 \<mapsto> [7::nat]])) = [(2, [''/b''])]"
proof -
  have pos: "(0::int) < 1" by simp
  have n: "(int (length [''/a'', ''/b'']) + 1 - 1) div 1 = 2" by simp
  have sl: "py_slice [''/a'', ''/b''] 1 2 = [''/b'']"
    by (simp add: py_slice_def py_index_def)
  note both = resume_skips_existing_batches [OF pos,
        where net = "\<lambda>i j k. GetRaises TimeoutError :: nat get_outcome"
        and finish = "\<lambda>i j. j" and df_urls = "[''/a'', ''/b'']" and start_batch = 1
        and files = "[batch_file 1 \<mapsto> [7::nat], batch_file 2 \<mapsto> [8]]" and i = 0 and rest = "[]",
        unfolded Let_def n, THEN conjunct2, THEN conjunct2, THEN conjunct2]
  note one = resume_skips_existing_batches [OF pos,
        where net = "\<lambda>i j k. GetRaises TimeoutError :: nat get_outcome"
        and finish = "\<lambda>i j. j" and df_urls = "[''/a'', ''/b'']" and start_batch = 1
        and files = "[batch_file 1 \<mapsto> [7::nat]]" and i = 0 and rest = "[]",
        unfolded Let_def n, THEN conjunct2, THEN conjunct1]
  have A: "resume_from_batch 1 (\<lambda>i j k. GetRaises TimeoutError) (\<lambda>i j. j) [''/a'', ''/b''] 1
        [batch_file 1 \<mapsto> [7::nat], batch_file 2 \<mapsto> [8]]
       = ([], [batch_file 1 \<mapsto> [7::nat], batch_file 2 \<mapsto> [8]])"
    using both by (simp add: py_range_two)
  have B: "batch_calls (fst (resume_from_batch 1 (\<lambda>i j k. GetRaises TimeoutError) (\<lambda>i j. j)
        [''/a'', ''/b''] 1 [batch_file 1 \<mapsto> [7::nat]])) = [(2, [''/b''])]"
    unfolding one by (simp add: py_range_two batch_file_eq_iff sl)
  from pos A B show ?thesis by (intro conjI)
qed

end
